theory Spec2Isabelle
  imports Main
begin

section \<open>The Pagination class of src/src/Pagination.ts\<close>

text \<open>
  A \<open>Pagination<T>\<close> object holds one page of a listing, two continuation tokens and
  the capability \<open>getWithToken\<close> that turns a token into another \<open>Pagination<T>\<close>.
  The capability is asynchronous and talks to a remote service, so it is modelled as a
  function of the state of the outside world \<open>'w\<close> that returns its outcome together with
  the next world. The outcome is neverthrow's \<open>Result\<close>: \<open>Inl e\<close> is \<open>err(e)\<close> and
  \<open>Inr p\<close> is \<open>ok(p)\<close>. A page returned by the capability carries a capability of its own,
  and a chain of pages can be walked back and forth without end, so the type is a
  codatatype.

  The type parameters are the page payload \<open>'t\<close>, the error type \<open>'e\<close>
  (\<open>YouTubesJsErrors\<close>), the outside world \<open>'w\<close> and the logger \<open>'l\<close>. The fields
  \<open>resultsPerPage\<close> and \<open>totalResults\<close> are only stored, never computed with; they are
  integers. The capability is taken to settle its promise with a \<open>Result\<close>, as its type says;
  a rejected promise is not modelled.
\<close>

codatatype ('t, 'e, 'w, 'l) Pagination =
  Pagination
    (data: 't)
    (resultsPerPage: int)
    (totalResults: int)
    (prevToken: "string option")
    (nextToken: "string option")
    (getWithToken: "string \<Rightarrow> 'w \<Rightarrow> ('e + ('t, 'e, 'w, 'l) Pagination) \<times> 'w")
    (logger: 'l)

type_synonym ('t, 'e, 'w, 'l) outcome = "'e + ('t, 'e, 'w, 'l) Pagination"

subsection \<open>Construction\<close>

text \<open>
  A field of \<open>PaginationOptions\<close> declared \<open>x?: T | null\<close> is missing (\<open>undefined\<close>),
  \<open>null\<close>, or a value.
\<close>

datatype 'a optional = Undefined | Null | Given 'a

record ('t, 'e, 'w, 'l) PaginationOptions =
  o_data :: 't
  o_logger :: 'l
  o_prevToken :: "string optional"
  o_nextToken :: "string optional"
  o_resultsPerPage :: "int optional"
  o_totalResults :: "int optional"
  o_getWithToken :: "string \<Rightarrow> 'w \<Rightarrow> ('e + ('t, 'e, 'w, 'l) Pagination) \<times> 'w"

text \<open>\<open>x ?? null\<close>: a missing or null field is stored as \<open>null\<close>.\<close>

fun or_null :: "'a optional \<Rightarrow> 'a option" where
  "or_null Undefined = None"
| "or_null Null = None"
| "or_null (Given x) = Some x"

text \<open>
  Modelled from the spec: \<open>isNullish\<close> of \<open>./utils\<close> is not under src/. The spec calls
  the fields it tests "absent"; the helper is taken to hold of \<open>undefined\<close> and \<open>null\<close> and
  of nothing else.
\<close>

fun isNullish :: "'a optional \<Rightarrow> bool" where
  "isNullish Undefined = True"
| "isNullish Null = True"
| "isNullish (Given x) = False"

text \<open>The value of a field that the nullish test has let through.\<close>

fun given :: "'a optional \<Rightarrow> 'a" where
  "given (Given x) = x"
| "given Undefined = undefined"
| "given Null = undefined"

text \<open>\<open>throw new Error(message)\<close>.\<close>

datatype thrown = Error string

text \<open>
  The constructor. \<open>createChild\<close> is the method of the logger (\<open>./Logger\<close>) and
  \<open>LIKELY_BUG\<close> the message constant (\<open>./constants\<close>); neither is under src/, so both are
  parameters. The two \<open>logger.debug\<close> calls before the throw write to the log sink and
  have no part in the value constructed; they are left out. A constructor that throws
  produces no object: the result is \<open>Inl\<close> of what is thrown.
\<close>

definition new_Pagination ::
  "('l \<Rightarrow> string \<Rightarrow> 'l) \<Rightarrow> string \<Rightarrow> ('t, 'e, 'w, 'l) PaginationOptions
     \<Rightarrow> thrown + ('t, 'e, 'w, 'l) Pagination" where
  "new_Pagination createChild LIKELY_BUG opts =
     (if isNullish (o_resultsPerPage opts) \<or> isNullish (o_totalResults opts)
      then Inl (Error LIKELY_BUG)
      else Inr (Pagination
             (o_data opts)
             (given (o_resultsPerPage opts))
             (given (o_totalResults opts))
             (or_null (o_prevToken opts))
             (or_null (o_nextToken opts))
             (o_getWithToken opts)
             (createChild (o_logger opts) ''Pagination#constructor'')))"

subsection \<open>The host: the outside world and the record of fetches\<close>

text \<open>
  Every invocation of a capability is recorded: the method that made it (\<open>prev()\<close> is
  \<open>Backward\<close>, \<open>next()\<close> is \<open>Forward\<close>), the token passed, and the error when the
  outcome was a failure. The record is what a test double counting its invocations sees.
\<close>

datatype dir = Backward | Forward

datatype 'e call = Call (site: dir) (token: string) (failure: "'e option")

record ('e, 'w) host =
  world :: 'w
  calls :: "'e call list"

fun failure_of :: "('t, 'e, 'w, 'l) outcome \<Rightarrow> 'e option" where
  "failure_of (Inl e) = Some e"
| "failure_of (Inr p) = None"

text \<open>\<open>await this.getWithToken(token)\<close>, made from the method \<open>d\<close>.\<close>

definition invoke ::
  "dir \<Rightarrow> ('t, 'e, 'w, 'l) Pagination \<Rightarrow> string \<Rightarrow> ('e, 'w) host
     \<Rightarrow> ('t, 'e, 'w, 'l) outcome \<times> ('e, 'w) host" where
  "invoke d this t s =
     (let (r, w') = getWithToken this t (world s)
      in (r, \<lparr>world = w', calls = calls s @ [Call d t (failure_of r)]\<rparr>))"

text \<open>The calls recorded between the host states \<open>s\<close> and \<open>s'\<close>.\<close>

definition issued :: "('e, 'w) host \<Rightarrow> ('e, 'w) host \<Rightarrow> 'e call list" where
  "issued s s' = drop (length (calls s)) (calls s')"

subsection \<open>prev() and next()\<close>

text \<open>
  JavaScript's truth value of a \<open>string | null\<close>: \<open>null\<close> and the empty string are falsy.
\<close>

fun truthy :: "string option \<Rightarrow> bool" where
  "truthy None = False"
| "truthy (Some t) = (t \<noteq> [])"

text \<open>
  A method returns its value, the receiver as the call leaves it, and the host. The value
  of \<open>prev()\<close> and \<open>next()\<close> is \<open>None\<close> for \<open>null\<close> and \<open>Some\<close> of the outcome otherwise.
\<close>

definition prev ::
  "('t, 'e, 'w, 'l) Pagination \<Rightarrow> ('e, 'w) host
     \<Rightarrow> ('t, 'e, 'w, 'l) outcome option \<times> ('t, 'e, 'w, 'l) Pagination \<times> ('e, 'w) host" where
  "prev this s =
     (if \<not> truthy (prevToken this) then (None, this, s)
      else (let (data', s') = invoke Backward this (the (prevToken this)) s
            in (Some data', this, s')))"

definition "next" ::
  "('t, 'e, 'w, 'l) Pagination \<Rightarrow> ('e, 'w) host
     \<Rightarrow> ('t, 'e, 'w, 'l) outcome option \<times> ('t, 'e, 'w, 'l) Pagination \<times> ('e, 'w) host" where
  "next this s =
     (if \<not> truthy (nextToken this) then (None, this, s)
      else (let (data', s') = invoke Forward this (the (nextToken this)) s
            in (Some data', this, s')))"

subsection \<open>all()\<close>

text \<open>
  The two \<open>while\<close> loops may run forever (a capability can keep returning pages that have
  a previous page), so each takes fuel: one unit for every turn of the loop body. A loop
  that runs out of fuel gives \<open>None\<close>. Otherwise the backward loop gives \<open>Inl e\<close> when it
  leaves the method with \<open>err(e)\<close> and \<open>Inr result\<close> when its condition turns falsy.
\<close>

fun prev_loop ::
  "nat \<Rightarrow> ('t, 'e, 'w, 'l) outcome option \<Rightarrow> 't list \<Rightarrow> ('e, 'w) host
     \<Rightarrow> ('e + 't list) option \<times> ('e, 'w) host" where
  "prev_loop fuel None result s = (Some (Inr result), s)"
| "prev_loop fuel (Some (Inl e)) result s = (Some (Inl e), s)"
| "prev_loop 0 (Some (Inr p)) result s = (None, s)"
| "prev_loop (Suc fuel) (Some (Inr p)) result s =
     (let result' = data p # result;
          (prev', p', s') = prev p s
      in prev_loop fuel prev' result' s')"

fun next_loop ::
  "nat \<Rightarrow> ('t, 'e, 'w, 'l) outcome option \<Rightarrow> 't list \<Rightarrow> ('e, 'w) host
     \<Rightarrow> ('e + 't list) option \<times> ('e, 'w) host" where
  "next_loop fuel None result s = (Some (Inr result), s)"
| "next_loop fuel (Some (Inl e)) result s = (Some (Inl e), s)"
| "next_loop 0 (Some (Inr p)) result s = (None, s)"
| "next_loop (Suc fuel) (Some (Inr p)) result s =
     (let result' = result @ [data p];
          (next', p', s') = next p s
      in next_loop fuel next' result' s')"

definition all ::
  "nat \<Rightarrow> ('t, 'e, 'w, 'l) Pagination \<Rightarrow> ('e, 'w) host
     \<Rightarrow> ('e + 't list) option \<times> ('t, 'e, 'w, 'l) Pagination \<times> ('e, 'w) host" where
  "all fuel this s =
     (let result = [data this];
          (prev0, this1, s1) = prev this s
      in case prev_loop fuel prev0 result s1 of
           (None, s2) \<Rightarrow> (None, this1, s2)
         | (Some (Inl e), s2) \<Rightarrow> (Some (Inl e), this1, s2)
         | (Some (Inr result'), s2) \<Rightarrow>
             (let (next0, this2, s3) = next this1 s2
              in case next_loop fuel next0 result' s3 of
                   (r, s4) \<Rightarrow> (r, this2, s4)))"

subsection \<open>Chains of pages\<close>






text \<open>
  A capability is deterministic at a token when its outcome does not depend on the state
  of the world.
\<close>

definition deterministic :: "('t, 'e, 'w, 'l) Pagination \<Rightarrow> string \<Rightarrow> bool" where
  "deterministic c t = (\<forall>w w'. fst (getWithToken c t w) = fst (getWithToken c t w'))"

subsection \<open>A listing served by a test double\<close>

text \<open>
  A listing of \<open>n\<close> pages (at most five) served by a test double. The world is the number
  of requests served so far. The tokens in \<open>bad\<close> are answered with a failure, and so is
  every token that names no page of the listing.
\<close>

definition items :: "nat \<Rightarrow> string list" where
  "items i = (if i = 0 then [''a'', ''b''] else if i = 1 then [''c'', ''d'']
              else if i = 2 then [''e'', ''f''] else if i = 3 then [''g'', ''h'']
              else [''i''])"

definition page_token :: "nat \<Rightarrow> string" where
  "page_token i = (if i = 0 then ''p0'' else if i = 1 then ''p1''
                   else if i = 2 then ''p2'' else if i = 3 then ''p3'' else ''p4'')"

definition page_index :: "string \<Rightarrow> nat option" where
  "page_index t = (if t = ''p0'' then Some 0 else if t = ''p1'' then Some 1
                   else if t = ''p2'' then Some 2 else if t = ''p3'' then Some 3
                   else if t = ''p4'' then Some 4 else None)"

primcorec page ::
  "string list \<Rightarrow> nat \<Rightarrow> nat \<Rightarrow> (string list, string, nat, unit) Pagination" where
  "page bad n i =
     Pagination (items i) 2 (2 * int n)
       (if i = 0 then None else Some (page_token (i - 1)))
       (if n \<le> i + 1 then None else Some (page_token (i + 1)))
       (\<lambda>t w. (if t \<in> set bad then Inl ''quotaExceeded''
               else case page_index t of
                      None \<Rightarrow> Inl ''invalidPageToken''
                    | Some j \<Rightarrow> if j < n then Inr (page bad n j) else Inl ''invalidPageToken'',
               Suc w))
       ()"

text \<open>A cursor whose two tokens are the empty string; its capability would answer it.\<close>

definition blank :: "(string list, string, nat, unit) Pagination" where
  "blank = Pagination [''z''] 1 2 (Some []) (Some [])
             (\<lambda>t w. (Inr (page [] 3 0), Suc w)) ()"

definition host0 :: "(string, nat) host" where
  "host0 = \<lparr>world = 0, calls = []\<rparr>"

definition opts0 :: "(string list, string, nat, unit) PaginationOptions" where
  "opts0 = \<lparr>o_data = [''a''], o_logger = (), o_prevToken = Undefined, o_nextToken = Given ''p1'',
            o_resultsPerPage = Given 2, o_totalResults = Given 7,
            o_getWithToken = getWithToken (page [] 3 0)\<rparr>"

subsection \<open>Reading the record of fetches\<close>

text \<open>
  A record is clean when none of its calls failed; \<open>only d xs\<close> when all its calls were
  made from the method \<open>d\<close>. A record agrees with an outcome \<open>err(e)\<close> when its last call
  failed with \<open>e\<close> and every call before it succeeded, and with any other outcome when it
  is clean.
\<close>

definition clean :: "'e call list \<Rightarrow> bool" where
  "clean xs = (\<forall>k \<in> set xs. failure k = None)"

definition only :: "dir \<Rightarrow> 'e call list \<Rightarrow> bool" where
  "only d xs = (\<forall>k \<in> set xs. site k = d)"

fun agrees :: "('e + 'a) option \<Rightarrow> 'e call list \<Rightarrow> bool" where
  "agrees (Some (Inl e)) xs = (xs \<noteq> [] \<and> failure (last xs) = Some e \<and> clean (butlast xs))"
| "agrees (Some (Inr v)) xs = clean xs"
| "agrees None xs = clean xs"

section \<open>The cursor as an object in a store\<close>

text \<open>
  The definitions above take a cursor as a value. Whether a method writes a field of its
  receiver, and which object it hands back, can only be said of objects: here the class is
  modelled once more with the cursors in a store, a method taking the reference \<open>this\<close>
  and reading each field from the store at the point where the source reads it. A
  capability is a closure; closures are kept in a table and a cursor holds the index of its
  own. A closure receives the token and the store, may change any object in the store, and
  returns \<open>err(e)\<close> or \<open>ok\<close> of a reference to a cursor. The store also holds whatever
  lies outside the cursors.
\<close>

type_synonym ref = nat

record ('t, 'l) cursor =
  c_data :: 't
  c_resultsPerPage :: int
  c_totalResults :: int
  c_prevToken :: "string option"
  c_nextToken :: "string option"
  c_getWithToken :: nat
  c_logger :: 'l

record ('t, 'l, 'x) store =
  objects :: "ref \<Rightarrow> ('t, 'l) cursor"
  outside :: 'x

type_synonym ('t, 'e, 'l, 'x) closures =
  "nat \<Rightarrow> string \<Rightarrow> ('t, 'l, 'x) store \<Rightarrow> ('e + ref) \<times> ('t, 'l, 'x) store"

definition prev_at ::
  "('t, 'e, 'l, 'x) closures \<Rightarrow> ref \<Rightarrow> ('t, 'l, 'x) store
     \<Rightarrow> ('e + ref) option \<times> ('t, 'l, 'x) store" where
  "prev_at closures this h =
     (if \<not> truthy (c_prevToken (objects h this)) then (None, h)
      else (let (data', h') = closures (c_getWithToken (objects h this))
                                (the (c_prevToken (objects h this))) h
            in (Some data', h')))"

definition next_at ::
  "('t, 'e, 'l, 'x) closures \<Rightarrow> ref \<Rightarrow> ('t, 'l, 'x) store
     \<Rightarrow> ('e + ref) option \<times> ('t, 'l, 'x) store" where
  "next_at closures this h =
     (if \<not> truthy (c_nextToken (objects h this)) then (None, h)
      else (let (data', h') = closures (c_getWithToken (objects h this))
                                (the (c_nextToken (objects h this))) h
            in (Some data', h')))"

text \<open>
  The loops of \<open>all()\<close>, with fuel as before. \<open>prev.value.data\<close> is read from the store
  as it is when the loop body runs, and \<open>this.next()\<close> reads \<open>this.nextToken\<close> from the
  store that the backward walk has left.
\<close>

fun prev_loop_at ::
  "('t, 'e, 'l, 'x) closures \<Rightarrow> nat \<Rightarrow> ('e + ref) option \<Rightarrow> 't list \<Rightarrow> ('t, 'l, 'x) store
     \<Rightarrow> ('e + 't list) option \<times> ('t, 'l, 'x) store" where
  "prev_loop_at closures fuel None result h = (Some (Inr result), h)"
| "prev_loop_at closures fuel (Some (Inl e)) result h = (Some (Inl e), h)"
| "prev_loop_at closures 0 (Some (Inr p)) result h = (None, h)"
| "prev_loop_at closures (Suc fuel) (Some (Inr p)) result h =
     (let result' = c_data (objects h p) # result;
          (prev', h') = prev_at closures p h
      in prev_loop_at closures fuel prev' result' h')"

fun next_loop_at ::
  "('t, 'e, 'l, 'x) closures \<Rightarrow> nat \<Rightarrow> ('e + ref) option \<Rightarrow> 't list \<Rightarrow> ('t, 'l, 'x) store
     \<Rightarrow> ('e + 't list) option \<times> ('t, 'l, 'x) store" where
  "next_loop_at closures fuel None result h = (Some (Inr result), h)"
| "next_loop_at closures fuel (Some (Inl e)) result h = (Some (Inl e), h)"
| "next_loop_at closures 0 (Some (Inr p)) result h = (None, h)"
| "next_loop_at closures (Suc fuel) (Some (Inr p)) result h =
     (let result' = result @ [c_data (objects h p)];
          (next', h') = next_at closures p h
      in next_loop_at closures fuel next' result' h')"

definition all_at ::
  "('t, 'e, 'l, 'x) closures \<Rightarrow> nat \<Rightarrow> ref \<Rightarrow> ('t, 'l, 'x) store
     \<Rightarrow> ('e + 't list) option \<times> ('t, 'l, 'x) store" where
  "all_at closures fuel this h =
     (let result = [c_data (objects h this)];
          (prev0, h1) = prev_at closures this h
      in case prev_loop_at closures fuel prev0 result h1 of
           (None, h2) \<Rightarrow> (None, h2)
         | (Some (Inl e), h2) \<Rightarrow> (Some (Inl e), h2)
         | (Some (Inr result'), h2) \<Rightarrow>
             (let (next0, h3) = next_at closures this h2
              in next_loop_at closures fuel next0 result' h3))"

text \<open>
  A caller holding a reference to a cursor calls its methods one after the other, in any
  order and any number of times.
\<close>

datatype invocation = Prev | Next | All nat

fun call_method ::
  "('t, 'e, 'l, 'x) closures \<Rightarrow> invocation \<Rightarrow> ref \<Rightarrow> ('t, 'l, 'x) store
     \<Rightarrow> ('t, 'l, 'x) store" where
  "call_method closures Prev this h = snd (prev_at closures this h)"
| "call_method closures Next this h = snd (next_at closures this h)"
| "call_method closures (All fuel) this h = snd (all_at closures fuel this h)"

fun call_methods ::
  "('t, 'e, 'l, 'x) closures \<Rightarrow> invocation list \<Rightarrow> ref \<Rightarrow> ('t, 'l, 'x) store
     \<Rightarrow> ('t, 'l, 'x) store" where
  "call_methods closures [] this h = h"
| "call_methods closures (m # ms) this h =
     call_methods closures ms this (call_method closures m this h)"

text \<open>
  The value that a caller sees of the object at \<open>r\<close> in the store \<open>h\<close>: its fields as
  they are in \<open>h\<close>, and its closure as a capability whose world is the store. With it the
  methods on values and the methods on references can be compared. \<open>deliver\<close> turns what
  a method on references returns into what the method on values returns.
\<close>

primcorec snapshot ::
  "('t, 'e, 'l, 'x) closures \<Rightarrow> ('t, 'l, 'x) store \<Rightarrow> ref
     \<Rightarrow> ('t, 'e, ('t, 'l, 'x) store, 'l) Pagination" where
  "snapshot closures h r =
     Pagination (c_data (objects h r)) (c_resultsPerPage (objects h r))
       (c_totalResults (objects h r)) (c_prevToken (objects h r)) (c_nextToken (objects h r))
       (\<lambda>t w. (case fst (closures (c_getWithToken (objects h r)) t w) of
                  Inl e \<Rightarrow> Inl e
                | Inr p \<Rightarrow> Inr (snapshot closures (snd (closures (c_getWithToken (objects h r)) t w)) p),
               snd (closures (c_getWithToken (objects h r)) t w)))
       (c_logger (objects h r))"

definition deliver ::
  "('t, 'e, 'l, 'x) closures \<Rightarrow> ('t, 'l, 'x) store \<Rightarrow> ('e + ref) option
     \<Rightarrow> ('t, 'e, ('t, 'l, 'x) store, 'l) outcome option" where
  "deliver closures h r =
     (case r of None \<Rightarrow> None | Some (Inl e) \<Rightarrow> Some (Inl e)
      | Some (Inr p) \<Rightarrow> Some (Inr (snapshot closures h p)))"

text \<open>No closure of the table, at any token and in any store, changes the object \<open>a\<close>.\<close>

definition keeps :: "('t, 'e, 'l, 'x) closures \<Rightarrow> ref \<Rightarrow> bool" where
  "keeps closures a = (\<forall>k t h. objects (snd (closures k t h)) a = objects h a)"

subsection \<open>Two tables of closures\<close>

text \<open>
  In \<open>store0\<close> the cursor at reference 0 has a previous-page token and the closure 0,
  which overwrites the payload of that very cursor before it returns the cursor at
  reference 1; the cursor at reference 2 has the closure 1, which changes nothing and
  returns reference 2, the receiver itself. Every other reference holds a cursor without
  tokens.
\<close>

definition cursor0 :: "(string list, unit) cursor" where
  "cursor0 = \<lparr>c_data = [''c'', ''d''], c_resultsPerPage = 2, c_totalResults = 4,
              c_prevToken = Some ''p0'', c_nextToken = None, c_getWithToken = 0,
              c_logger = ()\<rparr>"

definition store0 :: "(string list, unit, nat) store" where
  "store0 = \<lparr>objects = (\<lambda>r. if r = 0 then cursor0
                            else if r = 2 then cursor0\<lparr>c_getWithToken := 1\<rparr>
                            else cursor0\<lparr>c_data := [''a'', ''b''], c_prevToken := None\<rparr>),
             outside = 0\<rparr>"

definition closures0 :: "(string list, string, unit, nat) closures" where
  "closures0 k t h =
     (if k = 0
      then (Inr 1, h\<lparr>objects := (objects h)(0 := (objects h 0)\<lparr>c_data := [''overwritten'']\<rparr>),
                      outside := Suc (outside h)\<rparr>)
      else (Inr 2, h\<lparr>outside := Suc (outside h)\<rparr>))"

text \<open>
  The closures of \<open>closures1\<close> count the requests and construct the page they return at a
  reference above 0 (the first page at 1, which has no tokens); they write no other object.
\<close>

definition closures1 :: "(string list, string, unit, nat) closures" where
  "closures1 k t h =
     (Inr 1, h\<lparr>objects := (objects h)(1 := cursor0\<lparr>c_data := [''a'', ''b''], c_prevToken := None\<rparr>),
               outside := Suc (outside h)\<rparr>)"

section \<open>Basic facts\<close>

lemma invoke_eq:
  "invoke d c t s =
     (fst (getWithToken c t (world s)),
      \<lparr>world = snd (getWithToken c t (world s)),
       calls = calls s @ [Call d t (failure_of (fst (getWithToken c t (world s))))]\<rparr>)"
  by (simp add: invoke_def split_beta)

lemma issued_self: "issued s s = []"
  by (simp add: issued_def)





lemma prev_this: "fst (snd (prev c s)) = c"
  by (simp add: prev_def split_beta)


section \<open>Fuel\<close>

text \<open>
  Fuel only bounds the number of turns of the loops: a run that has returned returns the
  same value and leaves the same host with any larger amount of fuel.
\<close>

lemma prev_loop_more_fuel:
  "prev_loop n prv result s = (Some r, s') \<Longrightarrow> prev_loop (n + k) prv result s = (Some r, s')"
proof (induction n prv result s rule: prev_loop.induct)
  case (4 fuel p result s)
  obtain q p' s1 where pr: "prev p s = (q, p', s1)" by (cases "prev p s") auto
  from "4.prems" pr have "prev_loop fuel q (data p # result) s1 = (Some r, s')" by simp
  from "4.IH" [OF refl refl pr [symmetric] refl this] pr show ?case by simp
qed simp_all

lemma next_loop_more_fuel:
  "next_loop n nxt result s = (Some r, s') \<Longrightarrow> next_loop (n + k) nxt result s = (Some r, s')"
proof (induction n nxt result s rule: next_loop.induct)
  case (4 fuel p result s)
  obtain q p' s1 where pr: "next p s = (q, p', s1)" by (cases "next p s") auto
  from "4.prems" pr have "next_loop fuel q (result @ [data p]) s1 = (Some r, s')" by simp
  from "4.IH" [OF refl refl pr [symmetric] refl this] pr show ?case by simp
qed simp_all

lemma all_more_fuel:
  assumes "all n c s = (Some r, c', s')"
  shows "all (n + k) c s = (Some r, c', s')"
proof -
  obtain p0 c1 s1 where p: "prev c s = (p0, c1, s1)" by (cases "prev c s") auto
  obtain r1 s2 where l1: "prev_loop n p0 [data c] s1 = (r1, s2)"
    by (cases "prev_loop n p0 [data c] s1")
  show ?thesis
  proof (cases r1)
    case None
    with assms p l1 show ?thesis by (simp add: all_def)
  next
    case (Some v)
    with l1 have m1: "prev_loop (n + k) p0 [data c] s1 = (Some v, s2)"
      by (simp add: prev_loop_more_fuel)
    show ?thesis
    proof (cases v)
      case (Inl e)
      with Some assms p l1 m1 show ?thesis by (auto simp: all_def)
    next
      case (Inr result')
      obtain n0 c2 s3 where nx: "next c1 s2 = (n0, c2, s3)" by (cases "next c1 s2") auto
      from Some Inr assms p l1 nx have "next_loop n n0 result' s3 = (Some r, s')" "c2 = c'"
        by (simp_all add: all_def split: prod.splits)
      then have "next_loop (n + k) n0 result' s3 = (Some r, s')" "c2 = c'"
        by (simp_all add: next_loop_more_fuel)
      with Inr p m1 nx show ?thesis by (simp add: all_def)
    qed
  qed
qed

section \<open>Construction\<close>

text \<open>
  C3. A construction in which \<open>resultsPerPage\<close> or \<open>totalResults\<close> is absent (missing
  or \<open>null\<close>) throws \<open>Error(LIKELY_BUG)\<close> and produces no cursor; a construction in
  which both are present succeeds and the cursor stores both values (and the payload).
\<close>

theorem new_Pagination_mandatory:
  "((o_resultsPerPage opts \<in> {Undefined, Null} \<or> o_totalResults opts \<in> {Undefined, Null})
      \<longrightarrow> new_Pagination createChild LIKELY_BUG opts = Inl (Error LIKELY_BUG))
   \<and> (o_resultsPerPage opts = Given r \<and> o_totalResults opts = Given n
      \<longrightarrow> (\<exists>c. new_Pagination createChild LIKELY_BUG opts = Inr c
             \<and> resultsPerPage c = r \<and> totalResults c = n \<and> data c = o_data opts))"
  by (auto simp: new_Pagination_def)

theorem new_Pagination_mandatory_witness:
  "new_Pagination (\<lambda>l n. l) ''likely a bug'' (opts0\<lparr>o_totalResults := Null\<rparr>) = Inl (Error ''likely a bug'')
   \<and> (\<exists>c. new_Pagination (\<lambda>l n. l) ''likely a bug'' opts0 = Inr c
          \<and> resultsPerPage c = 2 \<and> totalResults c = 7 \<and> data c = [''a''])"
  using new_Pagination_mandatory [of "opts0\<lparr>o_totalResults := Null\<rparr>" "\<lambda>l n. l" "''likely a bug''" 2 7]
    new_Pagination_mandatory [of opts0 "\<lambda>l n. l" "''likely a bug''" 2 7]
  by (simp add: opts0_def)

section \<open>prev() and next()\<close>

text \<open>
  C4. A cursor whose \<open>prevToken\<close> is absent answers \<open>prev()\<close> with \<open>null\<close>, which is
  neither a success nor a failure, and leaves the host as it was: no call is recorded and
  the world is unchanged, so the capability was not invoked.
\<close>

theorem prev_absent:
  "prevToken c = None \<Longrightarrow>
     prev c s = (None, c, s) \<and> fst (prev c s) \<noteq> Some r
     \<and> issued s (snd (snd (prev c s))) = []"
  by (simp add: prev_def issued_self)

theorem prev_absent_witness:
  "prevToken (page [] 3 0) = None \<and> prev (page [] 3 0) host0 = (None, page [] 3 0, host0)
   \<and> issued host0 (snd (snd (prev (page [] 3 0) host0))) = []"
  using prev_absent [of "page [] 3 0" host0] by (simp add: issued_self)

text \<open>
  C5. A cursor whose \<open>nextToken\<close> is absent answers \<open>next()\<close> with \<open>null\<close>, which is
  neither a success nor a failure, and leaves the host as it was: the capability was not
  invoked.
\<close>

theorem next_absent:
  "nextToken c = None \<Longrightarrow>
     next c s = (None, c, s) \<and> fst (next c s) \<noteq> Some r
     \<and> issued s (snd (snd (next c s))) = []"
  by (simp add: next_def issued_self)

theorem next_absent_witness:
  "nextToken (page [] 3 2) = None \<and> next (page [] 3 2) host0 = (None, page [] 3 2, host0)
   \<and> issued host0 (snd (snd (next (page [] 3 2) host0))) = []"
  using next_absent [of "page [] 3 2" host0] by (simp add: issued_self)

text \<open>
  C9. A cursor whose \<open>prevToken\<close> (respectively \<open>nextToken\<close>) is the empty string answers
  \<open>prev()\<close> (respectively \<open>next()\<close>) with \<open>null\<close> and does not invoke the capability:
  the empty string is falsy, and is never passed on.
\<close>

theorem empty_token_absent:
  "(prevToken c = Some [] \<longrightarrow> prev c s = (None, c, s) \<and> issued s (snd (snd (prev c s))) = [])
   \<and> (nextToken c = Some [] \<longrightarrow> next c s = (None, c, s) \<and> issued s (snd (snd (next c s))) = [])"
  by (simp add: prev_def next_def issued_self)

theorem empty_token_absent_witness:
  "prevToken blank = Some [] \<and> prev blank host0 = (None, blank, host0)
   \<and> issued host0 (snd (snd (prev blank host0))) = []
   \<and> nextToken blank = Some [] \<and> next blank host0 = (None, blank, host0)
   \<and> issued host0 (snd (snd (next blank host0))) = []"
  using empty_token_absent [of blank host0] by (simp add: blank_def issued_self)

text \<open>
  C6, as stated, fails for a token that is present but empty: the cursor \<open>blank\<close> has the
  empty string for both tokens, its capability would answer it, and yet \<open>prev()\<close> and
  \<open>next()\<close> return \<open>null\<close> and record no call.
\<close>

theorem present_token_counterexample:
  "prevToken blank = Some [] \<and> nextToken blank = Some []
   \<and> fst (prev blank host0) \<noteq> Some (fst (getWithToken blank [] (world host0)))
   \<and> length (issued host0 (snd (snd (prev blank host0)))) \<noteq> 1
   \<and> fst (next blank host0) \<noteq> Some (fst (getWithToken blank [] (world host0)))
   \<and> length (issued host0 (snd (snd (next blank host0)))) \<noteq> 1"
  by (simp add: blank_def prev_def next_def issued_self)

text \<open>
  C6, amended. A cursor whose \<open>prevToken\<close> (respectively \<open>nextToken\<close>) is a non-empty
  string answers \<open>prev()\<close> (respectively \<open>next()\<close>) with the outcome of its capability at
  that token, unchanged; exactly one call is recorded, with that token, and the world is the
  one that this single invocation leaves.
\<close>

theorem nonempty_token_fetched_once:
  "(prevToken c = Some t \<and> t \<noteq> [] \<longrightarrow>
      (case prev c s of (r, c', s') \<Rightarrow>
         r = Some (fst (getWithToken c t (world s)))
         \<and> world s' = snd (getWithToken c t (world s))
         \<and> issued s s' = [Call Backward t (failure_of (fst (getWithToken c t (world s))))]))
   \<and> (nextToken c = Some t \<and> t \<noteq> [] \<longrightarrow>
      (case next c s of (r, c', s') \<Rightarrow>
         r = Some (fst (getWithToken c t (world s)))
         \<and> world s' = snd (getWithToken c t (world s))
         \<and> issued s s' = [Call Forward t (failure_of (fst (getWithToken c t (world s))))]))"
  by (simp add: prev_def next_def invoke_eq issued_def)

theorem nonempty_token_fetched_once_witness:
  "prevToken (page [''p0''] 3 1) = Some ''p0'' \<and> nextToken (page [''p0''] 3 1) = Some ''p2''
   \<and> fst (prev (page [''p0''] 3 1) host0) = Some (Inl ''quotaExceeded'')
   \<and> issued host0 (snd (snd (prev (page [''p0''] 3 1) host0))) = [Call Backward ''p0'' (Some ''quotaExceeded'')]
   \<and> fst (next (page [''p0''] 3 1) host0) = Some (Inr (page [''p0''] 3 2))
   \<and> world (snd (snd (next (page [''p0''] 3 1) host0))) = 1
   \<and> issued host0 (snd (snd (next (page [''p0''] 3 1) host0))) = [Call Forward ''p2'' None]"
  using nonempty_token_fetched_once [of "page [''p0''] 3 1" "''p0''" host0]
    nonempty_token_fetched_once [of "page [''p0''] 3 1" "''p2''" host0]
  by (simp add: page_token_def page_index_def host0_def split: prod.splits)



text \<open>
  C8, as stated, fails for a token that is present but empty: the capability of \<open>blank\<close>
  is deterministic, and two calls of \<open>prev()\<close> record no call at all.
\<close>

theorem prev_twice_counterexample:
  "prevToken blank = Some [] \<and> deterministic blank []
   \<and> fst (prev blank host0) = None
   \<and> fst (prev (fst (snd (prev blank host0))) (snd (snd (prev blank host0)))) = None
   \<and> issued host0 (snd (snd (prev (fst (snd (prev blank host0)))
                                   (snd (snd (prev blank host0)))))) = []"
  by (simp add: blank_def prev_def issued_self deterministic_def)

text \<open>
  C8, amended. For a cursor whose \<open>prevToken\<close> is a non-empty string and whose capability
  is deterministic at that token, two calls of \<open>prev()\<close> in a row record two calls with
  that token, leave the world that two invocations of the capability leave (nothing is
  cached), and return the same outcome; when they succeed, the two cursors carry the same
  payload.
\<close>

theorem prev_twice:
  "prevToken c = Some t \<Longrightarrow> t \<noteq> [] \<Longrightarrow> deterministic c t \<Longrightarrow>
     (case prev c s of (r1, c1, s1) \<Rightarrow>
        case prev c1 s1 of (r2, c2, s2) \<Rightarrow>
          (\<exists>f1 f2. issued s s2 = [Call Backward t f1, Call Backward t f2])
          \<and> world s2 = snd (getWithToken c t (snd (getWithToken c t (world s))))
          \<and> r1 = r2
          \<and> (\<forall>p1 p2. r1 = Some (Inr p1) \<and> r2 = Some (Inr p2) \<longrightarrow> data p1 = data p2))"
proof -
  assume t: "prevToken c = Some t" "t \<noteq> []" and det: "deterministic c t"
  have same: "fst (getWithToken c t (snd (getWithToken c t (world s)))) = fst (getWithToken c t (world s))"
    using det unfolding deterministic_def by blast
  show ?thesis
    using t same by (auto simp: prev_def invoke_eq issued_def)
qed

theorem prev_twice_witness:
  "prevToken (page [] 3 1) = Some ''p0'' \<and> ''p0'' \<noteq> [] \<and> deterministic (page [] 3 1) ''p0''
   \<and> (case prev (page [] 3 1) host0 of (r1, c1, s1) \<Rightarrow>
        case prev c1 s1 of (r2, c2, s2) \<Rightarrow>
          (\<exists>f1 f2. issued host0 s2 = [Call Backward ''p0'' f1, Call Backward ''p0'' f2])
          \<and> world s2 = 2 \<and> r1 = r2)"
proof -
  have t: "prevToken (page [] 3 1) = Some ''p0''" by (simp add: page_token_def)
  have n: "''p0'' \<noteq> []" by simp
  have d: "deterministic (page [] 3 1) ''p0''" by (simp add: deterministic_def)
  from prev_twice [OF t n d, of host0] t d show ?thesis
    by (simp add: host0_def split: prod.splits)
qed

section \<open>The methods and the receiver object\<close>

text \<open>
  When no closure changes the object \<open>a\<close>, no method does: the methods on references
  change the store only through the closures they invoke.
\<close>

lemma prev_at_keeps: "keeps closures a \<Longrightarrow> objects (snd (prev_at closures p h)) a = objects h a"
  by (simp add: prev_at_def keeps_def split_beta)

lemma next_at_keeps: "keeps closures a \<Longrightarrow> objects (snd (next_at closures p h)) a = objects h a"
  by (simp add: next_at_def keeps_def split_beta)

lemma prev_loop_at_keeps:
  "keeps closures a \<Longrightarrow>
     objects (snd (prev_loop_at closures fuel prv result h)) a = objects h a"
proof (induction closures fuel prv result h rule: prev_loop_at.induct)
  case (4 closures fuel p result h)
  obtain q h1 where pr: "prev_at closures p h = (q, h1)" by (cases "prev_at closures p h")
  from prev_at_keeps [OF "4.prems", of p h] pr have "objects h1 a = objects h a" by simp
  with "4.IH" [OF refl refl pr [symmetric] "4.prems"] pr show ?case by simp
qed simp_all

lemma next_loop_at_keeps:
  "keeps closures a \<Longrightarrow>
     objects (snd (next_loop_at closures fuel nxt result h)) a = objects h a"
proof (induction closures fuel nxt result h rule: next_loop_at.induct)
  case (4 closures fuel p result h)
  obtain q h1 where pr: "next_at closures p h = (q, h1)" by (cases "next_at closures p h")
  from next_at_keeps [OF "4.prems", of p h] pr have "objects h1 a = objects h a" by simp
  with "4.IH" [OF refl refl pr [symmetric] "4.prems"] pr show ?case by simp
qed simp_all

lemma all_at_keeps:
  assumes "keeps closures a"
  shows "objects (snd (all_at closures fuel this h)) a = objects h a"
proof -
  obtain p0 h1 where p: "prev_at closures this h = (p0, h1)"
    by (cases "prev_at closures this h")
  obtain r1 h2 where l1: "prev_loop_at closures fuel p0 [c_data (objects h this)] h1 = (r1, h2)"
    by (cases "prev_loop_at closures fuel p0 [c_data (objects h this)] h1")
  from prev_at_keeps [OF assms, of this h] p have 1: "objects h1 a = objects h a" by simp
  from prev_loop_at_keeps [OF assms, of fuel p0 "[c_data (objects h this)]" h1] l1
  have 2: "objects h2 a = objects h1 a" by simp
  show ?thesis
  proof (cases r1)
    case None
    with p l1 1 2 show ?thesis by (simp add: all_at_def)
  next
    case (Some v)
    show ?thesis
    proof (cases v)
      case (Inl e)
      with Some p l1 1 2 show ?thesis by (simp add: all_at_def)
    next
      case (Inr result')
      obtain n0 h3 where n: "next_at closures this h2 = (n0, h3)"
        by (cases "next_at closures this h2")
      from next_at_keeps [OF assms, of this h2] n have 3: "objects h3 a = objects h2 a" by simp
      from next_loop_at_keeps [OF assms, of fuel n0 result' h3]
      have 4: "objects (snd (next_loop_at closures fuel n0 result' h3)) a = objects h3 a" .
      from Some Inr p l1 n 1 2 3 4 show ?thesis by (simp add: all_at_def)
    qed
  qed
qed

lemma call_method_keeps:
  "keeps closures a \<Longrightarrow> objects (call_method closures m this h) a = objects h a"
  by (cases m) (simp_all add: prev_at_keeps next_at_keeps all_at_keeps)

lemma call_methods_keeps:
  "keeps closures a \<Longrightarrow> objects (call_methods closures ms this h) a = objects h a"
  by (induction ms arbitrary: h) (simp_all add: call_method_keeps)

text \<open>
  The methods on references agree with the methods on values: \<open>prev()\<close> and \<open>next()\<close>
  always, and \<open>all()\<close> when no closure changes the receiver (the forward walk reads the
  receiver's \<open>nextToken\<close> after the backward walk has run).
\<close>

lemma prev_snapshot:
  "world s = h \<Longrightarrow>
     fst (prev (snapshot closures h this) s)
       = deliver closures (snd (prev_at closures this h)) (fst (prev_at closures this h))
     \<and> world (snd (snd (prev (snapshot closures h this) s))) = snd (prev_at closures this h)"
  by (simp add: prev_def prev_at_def invoke_eq deliver_def split_beta split: sum.splits)

lemma next_snapshot:
  "world s = h \<Longrightarrow>
     fst (next (snapshot closures h this) s)
       = deliver closures (snd (next_at closures this h)) (fst (next_at closures this h))
     \<and> world (snd (snd (next (snapshot closures h this) s))) = snd (next_at closures this h)"
  by (simp add: next_def next_at_def invoke_eq deliver_def split_beta split: sum.splits)

lemma prev_loop_snapshot:
  "world s = h \<Longrightarrow>
     fst (prev_loop fuel (deliver closures h prv) result s)
       = fst (prev_loop_at closures fuel prv result h)
     \<and> world (snd (prev_loop fuel (deliver closures h prv) result s))
       = snd (prev_loop_at closures fuel prv result h)"
proof (induction closures fuel prv result h arbitrary: s rule: prev_loop_at.induct)
  case (4 closures fuel p result h)
  obtain q h1 where pa: "prev_at closures p h = (q, h1)" by (cases "prev_at closures p h")
  obtain q' c' s1 where pv: "prev (snapshot closures h p) s = (q', c', s1)"
    by (cases "prev (snapshot closures h p) s") auto
  from prev_snapshot [OF "4.prems", of closures p] pa pv
  have q': "q' = deliver closures h1 q" and w: "world s1 = h1" by simp_all
  from "4.IH" [OF refl refl pa [symmetric] w] pa pv q' show ?case
    by (simp add: deliver_def)
qed (simp_all add: deliver_def)


lemma next_loop_snapshot:
  "world s = h \<Longrightarrow>
     fst (next_loop fuel (deliver closures h nxt) result s)
       = fst (next_loop_at closures fuel nxt result h)
     \<and> world (snd (next_loop fuel (deliver closures h nxt) result s))
       = snd (next_loop_at closures fuel nxt result h)"
proof (induction closures fuel nxt result h arbitrary: s rule: next_loop_at.induct)
  case (4 closures fuel p result h)
  obtain q h1 where pa: "next_at closures p h = (q, h1)" by (cases "next_at closures p h")
  obtain q' c' s1 where pv: "next (snapshot closures h p) s = (q', c', s1)"
    by (cases "next (snapshot closures h p) s") auto
  from next_snapshot [OF "4.prems", of closures p] pa pv
  have q': "q' = deliver closures h1 q" and w: "world s1 = h1" by simp_all
  from "4.IH" [OF refl refl pa [symmetric] w] pa pv q' show ?case
    by (simp add: deliver_def)
qed (simp_all add: deliver_def)

lemma snapshot_cong:
  "objects h r = objects h' r \<Longrightarrow> snapshot closures h r = snapshot closures h' r"
  by (rule Pagination.expand) (simp cong: sum.case_cong)

lemma all_snapshot:
  assumes "keeps closures this" and "world s = h"
  shows "fst (all fuel (snapshot closures h this) s) = fst (all_at closures fuel this h)
         \<and> world (snd (snd (all fuel (snapshot closures h this) s)))
             = snd (all_at closures fuel this h)"
proof -
  let ?c = "snapshot closures h this"
  let ?d = "[c_data (objects h this)]"
  obtain q h1 where pa: "prev_at closures this h = (q, h1)"
    by (cases "prev_at closures this h")
  obtain q' c1 s1 where pv: "prev ?c s = (q', c1, s1)" by (cases "prev ?c s") auto
  from prev_snapshot [OF assms(2), of closures this] pa pv
  have q': "q' = deliver closures h1 q" and w1: "world s1 = h1" by simp_all
  from prev_this [of ?c s] pv have c1: "c1 = ?c" by simp
  obtain r1 h2 where la: "prev_loop_at closures fuel q ?d h1 = (r1, h2)"
    by (cases "prev_loop_at closures fuel q ?d h1")
  obtain r1' s2 where lv: "prev_loop fuel q' ?d s1 = (r1', s2)"
    by (cases "prev_loop fuel q' ?d s1")
  from prev_loop_snapshot [OF w1, of fuel closures q ?d] la lv q'
  have r1: "r1' = r1" and w2: "world s2 = h2" by simp_all
  show ?thesis
  proof (cases r1)
    case None
    with pa pv la lv r1 w2 c1 show ?thesis by (simp add: all_def all_at_def)
  next
    case (Some v)
    show ?thesis
    proof (cases v)
      case (Inl e)
      with Some pa pv la lv r1 w2 c1 show ?thesis by (simp add: all_def all_at_def)
    next
      case (Inr result')
      have "objects h1 this = objects h this"
        using prev_at_keeps [OF assms(1), of this h] pa by simp
      moreover have "objects h2 this = objects h1 this"
        using prev_loop_at_keeps [OF assms(1), of fuel q ?d h1] la by simp
      ultimately have "objects h this = objects h2 this" by simp
      then have same: "?c = snapshot closures h2 this" by (rule snapshot_cong)
      obtain n h3 where na: "next_at closures this h2 = (n, h3)"
        by (cases "next_at closures this h2")
      obtain n' c2 s3 where nv: "next ?c s2 = (n', c2, s3)" by (cases "next ?c s2") auto
      from next_snapshot [OF w2, of closures this] na nv same
      have n': "n' = deliver closures h3 n" and w3: "world s3 = h3" by simp_all
      obtain r2 h4 where ma: "next_loop_at closures fuel n result' h3 = (r2, h4)"
        by (cases "next_loop_at closures fuel n result' h3")
      obtain r2' s4 where mv: "next_loop fuel n' result' s3 = (r2', s4)"
        by (cases "next_loop fuel n' result' s3")
      from next_loop_snapshot [OF w3, of fuel closures n result'] ma mv n'
      have r2: "r2' = r2" and w4: "world s4 = h4" by simp_all
      have a: "all_at closures fuel this h = (r2, h4)"
        using Some Inr pa la na ma by (simp add: all_at_def)
      have b: "all fuel ?c s = (r2', c2, s4)"
        using Some Inr pv lv r1 c1 nv mv by (simp add: all_def)
      from a b r2 w4 show ?thesis by simp
    qed
  qed
qed

lemma all_at_example:
  "fst (all_at closures1 3 0 store0) = Some (Inr [[''a'', ''b''], [''c'', ''d'']])"
  by (simp add: all_at_def prev_at_def next_at_def store0_def cursor0_def closures1_def numeral_3_eq_3)

text \<open>
  C10, as stated, fails in both of its parts. The capability is code of the caller's and
  can reach the receiver: in \<open>store0\<close> the capability of the cursor at reference 0
  overwrites that cursor's payload, so \<open>prev()\<close> leaves the field \<open>data\<close> changed. And
  the capability of the cursor at reference 2 returns reference 2, so \<open>prev()\<close> delivers
  the receiver itself, an object that was there before the call.
\<close>

theorem methods_counterexample:
  "c_data (objects store0 0) = [''c'', ''d'']
   \<and> c_data (objects (call_methods closures0 [Prev] 0 store0) 0) = [''overwritten'']
   \<and> fst (prev_at closures0 2 store0) = Some (Inr 2)"
  by (simp add: store0_def cursor0_def closures0_def prev_at_def)

text \<open>
  C10, amended. The methods write no field themselves. If no capability changes the cursor
  at \<open>this\<close>, then after any calls of \<open>prev()\<close>, \<open>next()\<close> and \<open>all()\<close> on it, in
  any order and any number, every field of that cursor (payload, counts, tokens, capability)
  is as it was. And what \<open>prev()\<close> (respectively \<open>next()\<close>) delivers for a truthy token
  is exactly what the capability returns, and the store it leaves is exactly the one the
  capability leaves: the cursor delivered is the capability's choice, newly constructed or
  not.
\<close>

theorem methods_write_nothing:
  "(keeps closures this \<longrightarrow>
      objects (call_methods closures ms this h) this = objects h this)
   \<and> (truthy (c_prevToken (objects h this)) \<longrightarrow>
        prev_at closures this h
          = (Some (fst (closures (c_getWithToken (objects h this)) (the (c_prevToken (objects h this))) h)),
             snd (closures (c_getWithToken (objects h this)) (the (c_prevToken (objects h this))) h)))
   \<and> (truthy (c_nextToken (objects h this)) \<longrightarrow>
        next_at closures this h
          = (Some (fst (closures (c_getWithToken (objects h this)) (the (c_nextToken (objects h this))) h)),
             snd (closures (c_getWithToken (objects h this)) (the (c_nextToken (objects h this))) h)))"
  by (simp add: call_methods_keeps prev_at_def next_at_def split_beta)

theorem methods_write_nothing_witness:
  "objects (call_methods closures1 [Prev, All 3, Next, Prev] 0 store0) 0 = cursor0
   \<and> fst (prev_at closures1 0 store0) = Some (Inr 1)
   \<and> outside (snd (prev_at closures1 0 store0)) = 1"
proof -
  have k: "keeps closures1 0" by (simp add: keeps_def closures1_def)
  have t: "truthy (c_prevToken (objects store0 0))" by (simp add: store0_def cursor0_def)
  note w = methods_write_nothing [of closures1 0 "[Prev, All 3, Next, Prev]" store0]
  from w k have 1: "objects (call_methods closures1 [Prev, All 3, Next, Prev] 0 store0) 0
                      = objects store0 0"
    by (rule conjunct1 [THEN mp])
  from w t have 2: "prev_at closures1 0 store0
          = (Some (fst (closures1 (c_getWithToken (objects store0 0))
                          (the (c_prevToken (objects store0 0))) store0)),
             snd (closures1 (c_getWithToken (objects store0 0))
                    (the (c_prevToken (objects store0 0))) store0))"
    by (rule conjunct2 [THEN conjunct1, THEN mp])
  have 3: "objects store0 0 = cursor0" by (simp add: store0_def)
  from 1 3 have a: "objects (call_methods closures1 [Prev, All 3, Next, Prev] 0 store0) 0 = cursor0"
    by simp
  from 2 have b: "fst (prev_at closures1 0 store0) = Some (Inr 1)"
    by (simp add: closures1_def)
  from 2 have c: "outside (snd (prev_at closures1 0 store0)) = 1"
    by (simp add: closures1_def store0_def)
  from a b c show ?thesis by (intro conjI)
qed

section \<open>all() over a chain\<close>







section \<open>all() and failures\<close>

lemma clean_snoc: "clean xs \<Longrightarrow> failure k = None \<Longrightarrow> clean (xs @ [k])"
  by (simp add: clean_def)

lemma only_snoc: "only d xs \<Longrightarrow> site k = d \<Longrightarrow> only d (xs @ [k])"
  by (simp add: only_def)

lemma invoke_trace:
  assumes "invoke d c t s = (r, s1)" "calls s = base @ xs" "clean xs" "only d xs"
  shows "\<exists>ys. calls s1 = base @ ys \<and> agrees (Some r) ys \<and> only d ys"
proof -
  let ?k = "Call d t (failure_of r)"
  from assms(1) have c: "calls s1 = calls s @ [?k]"
    by (auto simp: invoke_eq)
  have a: "agrees (Some r) (xs @ [?k])"
    using assms(3) by (cases r) (simp_all add: clean_snoc)
  have o: "only d (xs @ [?k])" using assms(4) by (simp add: only_snoc)
  from c assms(2) have "calls s1 = base @ (xs @ [?k])" by simp
  with a o show ?thesis by blast
qed

lemma prev_trace:
  assumes "prev p s = (r, p', s1)" "calls s = base @ xs" "clean xs" "only Backward xs"
  shows "\<exists>ys. calls s1 = base @ ys \<and> agrees r ys \<and> only Backward ys"
proof (cases "truthy (prevToken p)")
  case False
  with assms(1) have "r = None" "s1 = s" by (simp_all add: prev_def)
  with assms(2,3,4) show ?thesis by auto
next
  case True
  obtain r0 s0 where i: "invoke Backward p (the (prevToken p)) s = (r0, s0)"
    by (cases "invoke Backward p (the (prevToken p)) s")
  with True assms(1) have "r = Some r0" "s1 = s0" by (simp_all add: prev_def)
  with invoke_trace [OF i assms(2,3,4)] show ?thesis by simp
qed

lemma next_trace:
  assumes "next p s = (r, p', s1)" "calls s = base @ xs" "clean xs" "only Forward xs"
  shows "\<exists>ys. calls s1 = base @ ys \<and> agrees r ys \<and> only Forward ys"
proof (cases "truthy (nextToken p)")
  case False
  with assms(1) have "r = None" "s1 = s" by (simp_all add: next_def)
  with assms(2,3,4) show ?thesis by auto
next
  case True
  obtain r0 s0 where i: "invoke Forward p (the (nextToken p)) s = (r0, s0)"
    by (cases "invoke Forward p (the (nextToken p)) s")
  with True assms(1) have "r = Some r0" "s1 = s0" by (simp_all add: next_def)
  with invoke_trace [OF i assms(2,3,4)] show ?thesis by simp
qed

lemma prev_loop_trace:
  "prev_loop fuel prv result s = (res, s') \<Longrightarrow> calls s = base @ xs \<Longrightarrow>
     agrees prv xs \<Longrightarrow> only Backward xs \<Longrightarrow>
     \<exists>ys. calls s' = base @ ys \<and> agrees res ys \<and> only Backward ys"
proof (induction fuel prv result s arbitrary: xs rule: prev_loop.induct)
  case (1 fuel result s)
  then show ?case by auto
next
  case (2 fuel e result s)
  then show ?case by auto
next
  case (3 p result s)
  then show ?case by auto
next
  case (4 fuel p result s)
  obtain r p' s1 where pr: "prev p s = (r, p', s1)" by (cases "prev p s") auto
  from "4.prems"(3) have cl: "clean xs" by simp
  from prev_trace [OF pr "4.prems"(2) cl "4.prems"(4)] obtain ys where
    ys: "calls s1 = base @ ys" "agrees r ys" "only Backward ys" by blast
  from "4.prems"(1) pr have "prev_loop fuel r (data p # result) s1 = (res, s')" by simp
  from "4.IH" [OF refl refl pr [symmetric] refl this ys] show ?case .
qed

lemma next_loop_trace:
  "next_loop fuel nxt result s = (res, s') \<Longrightarrow> calls s = base @ xs \<Longrightarrow>
     agrees nxt xs \<Longrightarrow> only Forward xs \<Longrightarrow>
     \<exists>ys. calls s' = base @ ys \<and> agrees res ys \<and> only Forward ys"
proof (induction fuel nxt result s arbitrary: xs rule: next_loop.induct)
  case (1 fuel result s)
  then show ?case by auto
next
  case (2 fuel e result s)
  then show ?case by auto
next
  case (3 p result s)
  then show ?case by auto
next
  case (4 fuel p result s)
  obtain r p' s1 where pr: "next p s = (r, p', s1)" by (cases "next p s") auto
  from "4.prems"(3) have cl: "clean xs" by simp
  from next_trace [OF pr "4.prems"(2) cl "4.prems"(4)] obtain ys where
    ys: "calls s1 = base @ ys" "agrees r ys" "only Forward ys" by blast
  from "4.prems"(1) pr have "next_loop fuel r (result @ [data p]) s1 = (res, s')" by simp
  from "4.IH" [OF refl refl pr [symmetric] refl this ys] show ?case .
qed

lemma agrees_failure:
  assumes "agrees res xs" "k \<in> set xs" "failure k = Some e"
  shows "res = Some (Inl e) \<and> last xs = k \<and> clean (butlast xs)"
proof (cases res)
  case None
  with assms show ?thesis by (auto simp: clean_def)
next
  case (Some r)
  show ?thesis
  proof (cases r)
    case (Inr v)
    with Some assms show ?thesis by (auto simp: clean_def)
  next
    case (Inl e')
    with Some assms(1) have ne: "xs \<noteq> []" and l: "failure (last xs) = Some e'"
      and c: "clean (butlast xs)" by simp_all
    from ne have "xs = butlast xs @ [last xs]" by simp
    then have "set xs = set (butlast xs) \<union> {last xs}"
      by (metis list.set(1) list.simps(15) set_append)
    with assms(2,3) c have "k = last xs" by (auto simp: clean_def)
    with l assms(3) Some Inl c show ?thesis by simp
  qed
qed

lemma agrees_nil: "agrees r [] \<Longrightarrow> clean xs \<Longrightarrow> agrees r xs"
proof (cases r)
  case None
  then show "clean xs \<Longrightarrow> agrees r xs" by simp
next
  case (Some v)
  then show "agrees r [] \<Longrightarrow> clean xs \<Longrightarrow> agrees r xs" by (cases v) simp_all
qed

lemma all_trace:
  assumes "all fuel c s = (res, c', s')"
  shows "\<exists>xs ys. calls s' = calls s @ xs @ ys \<and> only Backward xs \<and> only Forward ys
            \<and> (if ys = [] then agrees res xs else clean xs \<and> agrees res ys)"
proof -
  obtain p0 c1 s1 where p: "prev c s = (p0, c1, s1)" by (cases "prev c s") auto
  have e: "calls s = calls s @ []" "clean []" "only Backward []" "only Forward []"
    by (simp_all add: clean_def only_def)
  from prev_trace [OF p e(1,2,3)] obtain xs0 where
    xs0: "calls s1 = calls s @ xs0" "agrees p0 xs0" "only Backward xs0" by blast
  obtain r1 s2 where l1: "prev_loop fuel p0 [data c] s1 = (r1, s2)"
    by (cases "prev_loop fuel p0 [data c] s1")
  from prev_loop_trace [OF l1 xs0] obtain xs where
    xs: "calls s2 = calls s @ xs" "agrees r1 xs" "only Backward xs" by blast
  show ?thesis
  proof (cases r1)
    case None
    with assms p l1 have "res = None" "s' = s2" by (simp_all add: all_def)
    with xs None e(4) show ?thesis by (intro exI [of _ xs] exI [of _ "[]"]) simp
  next
    case (Some r)
    show ?thesis
    proof (cases r)
      case (Inl e')
      with Some assms p l1 have "res = Some (Inl e')" "s' = s2" by (simp_all add: all_def)
      with xs Some Inl e(4) show ?thesis by (intro exI [of _ xs] exI [of _ "[]"]) simp
    next
      case (Inr result')
      with Some xs(2) have cx: "clean xs" by simp
      obtain n0 c2 s3 where n: "next c1 s2 = (n0, c2, s3)" by (cases "next c1 s2") auto
      have b: "calls s2 = (calls s @ xs) @ []" using xs(1) by simp
      from next_trace [OF n b e(2,4)] obtain ys0 where
        ys0: "calls s3 = (calls s @ xs) @ ys0" "agrees n0 ys0" "only Forward ys0" by blast
      obtain r2 s4 where l2: "next_loop fuel n0 result' s3 = (r2, s4)"
        by (cases "next_loop fuel n0 result' s3")
      from next_loop_trace [OF l2 ys0] obtain ys where
        ys: "calls s4 = (calls s @ xs) @ ys" "agrees r2 ys" "only Forward ys" by blast
      from Some Inr assms p l1 n l2 have r: "res = r2" "s' = s4" by (simp_all add: all_def)
      have "agrees r2 [] \<Longrightarrow> agrees r2 xs"
        using cx by (rule agrees_nil [rotated])
      with r ys cx xs(3) show ?thesis
        by (intro exI [of _ xs] exI [of _ ys]) auto
    qed
  qed
qed

text \<open>
  C2. If a run of \<open>all()\<close>, with whatever fuel, has recorded a fetch that returned the
  failure \<open>e\<close>, then the run has returned, and its result is \<open>err(e)\<close>: no payload is
  returned. That fetch is the last one recorded and every fetch before it succeeded. If it
  was made by the backward walk, every recorded fetch is a backward one: no forward fetch
  was made.
\<close>

theorem all_failure:
  assumes "all fuel c s = (res, c', s')"
    and "Call d t (Some e) \<in> set (issued s s')"
  shows "res = Some (Inl e)
         \<and> last (issued s s') = Call d t (Some e)
         \<and> (\<forall>k \<in> set (butlast (issued s s')). failure k = None)
         \<and> (d = Backward \<longrightarrow> (\<forall>k \<in> set (issued s s'). site k = Backward))"
proof -
  from all_trace [OF assms(1)] obtain xs ys where
    t: "calls s' = calls s @ xs @ ys" "only Backward xs" "only Forward ys"
       "if ys = [] then agrees res xs else clean xs \<and> agrees res ys" by blast
  from t(1) have i: "issued s s' = xs @ ys" by (simp add: issued_def)
  let ?k = "Call d t (Some e)"
  have f: "failure ?k = Some e" by simp
  show ?thesis
  proof (cases "ys = []")
    case True
    with t(4) have a: "agrees res xs" by simp
    from assms(2) i True have "?k \<in> set xs" by simp
    from agrees_failure [OF a this f] t(2) i True show ?thesis
      by (simp add: clean_def only_def)
  next
    case False
    with t(4) have cx: "clean xs" and a: "agrees res ys" by simp_all
    from assms(2) i cx have in_ys: "?k \<in> set ys" by (auto simp: clean_def)
    with t(3) have d: "d = Forward" by (auto simp: only_def)
    from agrees_failure [OF a in_ys f] have
      r: "res = Some (Inl e)" "last ys = ?k" "clean (butlast ys)" by simp_all
    from False have "butlast (xs @ ys) = xs @ butlast ys" by (simp add: butlast_append)
    with cx r(3) have "clean (butlast (xs @ ys))" by (auto simp: clean_def)
    with r(1,2) i False d show ?thesis by (simp add: clean_def)
  qed
qed

theorem all_failure_witness:
  "all 3 (page [''p0''] 5 2) host0
     = (Some (Inl ''quotaExceeded''), page [''p0''] 5 2,
        \<lparr>world = 2, calls = [Call Backward ''p1'' None, Call Backward ''p0'' (Some ''quotaExceeded'')]\<rparr>)
   \<and> Call Backward ''p0'' (Some ''quotaExceeded'')
       \<in> set (issued host0 \<lparr>world = 2, calls = [Call Backward ''p1'' None, Call Backward ''p0'' (Some ''quotaExceeded'')]\<rparr>)
   \<and> map site (issued host0 \<lparr>world = 2, calls = [Call Backward ''p1'' None, Call Backward ''p0'' (Some ''quotaExceeded'')]\<rparr>)
       = [Backward, Backward]"
proof -
  let ?s = "\<lparr>world = 2, calls = [Call Backward ''p1'' None, Call Backward ''p0'' (Some ''quotaExceeded'')]\<rparr> :: (string, nat) host"
  have a: "all 3 (page [''p0''] 5 2) host0 = (Some (Inl ''quotaExceeded''), page [''p0''] 5 2, ?s)"
    by (simp add: all_def prev_def invoke_eq host0_def page_token_def page_index_def
        numeral_3_eq_3 numeral_2_eq_2)
  have b: "Call Backward ''p0'' (Some ''quotaExceeded'') \<in> set (issued host0 ?s)"
    by (simp add: issued_def host0_def)
  from all_failure [OF a b] a b show ?thesis by (simp add: issued_def host0_def)
qed

end
